theory Spec2Isabelle
  imports Main "HOL-Library.Sublist" "HOL-Library.Multiset"
begin

section \<open>Python primitives used by \<^verbatim>\<open>app.py\<close>\<close>

text \<open>
  Python strings are modelled as \<^typ>\<open>string\<close>, one \<^typ>\<open>char\<close> per code point, so the
  model covers the code points 0 to 255. Python integers are unbounded and are modelled
  as \<^typ>\<open>int\<close>. An exception is a value of \<open>error\<close>; a function that may raise returns
  \<open>error + 'a\<close> with \<open>Inl\<close> for the exception.
\<close>

datatype error =
    AttributeError
  | ValueError string
  | HTTPError nat
  | ParserError

text \<open>
  \<^verbatim>\<open>\d\<close> and \<^verbatim>\<open>[0-9]\<close>. On the code points below 256 the only decimal digits are
  the ASCII ones, so both classes coincide there.
\<close>

definition is_digit :: "char \<Rightarrow> bool" where
  "is_digit c \<longleftrightarrow> 48 \<le> (of_char c :: nat) \<and> (of_char c :: nat) \<le> 57"

definition is_upper :: "char \<Rightarrow> bool" where
  "is_upper c \<longleftrightarrow> 65 \<le> (of_char c :: nat) \<and> (of_char c :: nat) \<le> 90"

definition is_lower :: "char \<Rightarrow> bool" where
  "is_lower c \<longleftrightarrow> 97 \<le> (of_char c :: nat) \<and> (of_char c :: nat) \<le> 122"

text \<open>\<^verbatim>\<open>[A-Za-z0-9]\<close>.\<close>

definition is_alnum :: "char \<Rightarrow> bool" where
  "is_alnum c \<longleftrightarrow> is_upper c \<or> is_lower c \<or> is_digit c"

text \<open>\<^verbatim>\<open>[0-9A-Za-z_-]\<close>, the class of the 22 characters after \<^verbatim>\<open>UC\<close>.\<close>

definition is_id_char :: "char \<Rightarrow> bool" where
  "is_id_char c \<longleftrightarrow> is_digit c \<or> is_upper c \<or> is_lower c \<or> c = CHR ''_'' \<or> c = CHR ''-''"

text \<open>\<^verbatim>\<open>[A-Za-z0-9_.-]\<close>, the class of handles and custom names.\<close>

definition is_name_char :: "char \<Rightarrow> bool" where
  "is_name_char c \<longleftrightarrow> is_alnum c \<or> c = CHR ''_'' \<or> c = CHR ''.'' \<or> c = CHR ''-''"

text \<open>
  \<^verbatim>\<open>str.isspace\<close> on one character: tab to carriage return, the four separators
  0x1c to 0x1f, the space, NEL (0x85) and the no-break space (0xa0).
\<close>

definition is_space :: "char \<Rightarrow> bool" where
  "is_space c \<longleftrightarrow>
     (9 \<le> (of_char c :: nat) \<and> (of_char c :: nat) \<le> 13) \<or>
     (28 \<le> (of_char c :: nat) \<and> (of_char c :: nat) \<le> 32) \<or>
     (of_char c :: nat) = 133 \<or> (of_char c :: nat) = 160"

text \<open>\<^verbatim>\<open>s.rstrip(chars)\<close>, \<^verbatim>\<open>s.lstrip()\<close> and \<^verbatim>\<open>s.strip()\<close>.\<close>

definition py_rstrip :: "(char \<Rightarrow> bool) \<Rightarrow> string \<Rightarrow> string" where
  "py_rstrip P s = rev (dropWhile P (rev s))"

definition py_strip :: "string \<Rightarrow> string" where
  "py_strip s = dropWhile is_space (py_rstrip is_space s)"

text \<open>\<^verbatim>\<open>s.split("/")[-1]\<close>: what follows the last slash, the whole string when there is none.\<close>

definition last_segment :: "string \<Rightarrow> string" where
  "last_segment s = rev (takeWhile (\<lambda>c. c \<noteq> CHR ''/'') (rev s))"

text \<open>The number a string of decimal digits writes (leading zeros are allowed).\<close>

definition digit_value :: "char \<Rightarrow> int" where
  "digit_value c = int (of_char c) - 48"

definition int_of_digits :: "string \<Rightarrow> int" where
  "int_of_digits ds = foldl (\<lambda>acc c. 10 * acc + digit_value c) 0 ds"

text \<open>\<^verbatim>\<open>str(n)\<close> for a natural number, used in a message below.\<close>

fun decimal :: "nat \<Rightarrow> string" where
  "decimal n =
     (if n < 10 then [''0123456789'' ! n]
      else decimal (n div 10) @ [''0123456789'' ! (n mod 10)])"

declare decimal.simps [simp del]



text \<open>
  \<^verbatim>\<open>sys.int_info.default_max_str_digits\<close>: CPython (3.11, and the security releases of
  3.7 to 3.10) refuses to convert a decimal string of more digits to an integer. The
  source does not change the limit.
\<close>

definition int_max_str_digits :: nat where
  "int_max_str_digits = 4300"

text \<open>
  \<^verbatim>\<open>int(s)\<close> for a string \<open>s\<close> of digits in the sense of \<^verbatim>\<open>str.isdigit\<close> (the source calls
  it on nothing else). The conversion reads the leading run of decimal digits, leading
  zeros included; a run longer than the limit raises \<^verbatim>\<open>ValueError\<close>, and so does a
  character that is not a decimal digit (a superscript) or an empty string.
\<close>

definition py_int :: "string \<Rightarrow> error + int" where
  "py_int s =
     (let run = takeWhile is_digit s in
      if length run > int_max_str_digits then
        Inl (ValueError (''Exceeds the limit (4300 digits) for integer string conversion: value has ''
               @ decimal (length run)
               @ '' digits; use sys.set_int_max_str_digits() to increase the limit''))
      else if run = s \<and> s \<noteq> [] then Inr (int_of_digits s)
      else Inl (ValueError (''invalid literal for int() with base 10: '' @ [CHR 0x27] @ s @ [CHR 0x27])))"

text \<open>
  \<^verbatim>\<open>xs[:n]\<close>: the first \<open>n\<close> elements, or all but the last \<open>-n\<close> when \<open>n\<close> is negative.
\<close>

definition py_slice_to :: "'a list \<Rightarrow> int \<Rightarrow> 'a list" where
  "py_slice_to xs n =
     (if 0 \<le> n then take (nat n) xs else take (length xs - nat (- n)) xs)"

text \<open>
  \<^verbatim>\<open>max(pool, key=k)\<close> on a non-empty pool: the first element is the candidate, and a
  later element replaces it only when its key is strictly greater.
\<close>

fun py_max_from :: "('a \<Rightarrow> int) \<Rightarrow> 'a \<Rightarrow> 'a list \<Rightarrow> 'a" where
  "py_max_from k best [] = best"
| "py_max_from k best (x # xs) = py_max_from k (if k x > k best then x else best) xs"

section \<open>Helpers\<close>

subsection \<open>\<^verbatim>\<open>iso_to_seconds\<close>\<close>

text \<open>
  One optional group \<^verbatim>\<open>(?:(\d+)U)?\<close> of the pattern, tried at the start of \<open>s\<close>: the
  longest run of digits, which must be non-empty and followed by the unit letter \<open>u\<close>.
  The result is the captured digits (or \<open>None\<close>, the group did not take part) and the
  rest of the string. Giving digits back cannot make the group match, since the unit is
  not a digit, and what follows the group in the pattern matches the empty string, so
  the greedy choice is the one the regex engine reports.
\<close>

definition opt_component :: "char \<Rightarrow> string \<Rightarrow> string option \<times> string" where
  "opt_component u s =
     (case dropWhile is_digit s of
        [] \<Rightarrow> (None, s)
      | c # r \<Rightarrow>
          if takeWhile is_digit s \<noteq> [] \<and> c = u then (Some (takeWhile is_digit s), r)
          else (None, s))"

text \<open>
  \<^verbatim>\<open>re.match(r"PT(?:(\d+)H)?(?:(\d+)M)?(?:(\d+)S)?", iso)\<close>: \<open>None\<close> when the text does not
  start with \<^verbatim>\<open>PT\<close>, else the three groups and the part of the text after the match (which
  \<^verbatim>\<open>re.match\<close> does not look at).
\<close>

definition match_duration ::
  "string \<Rightarrow> ((string option \<times> string option \<times> string option) \<times> string) option" where
  "match_duration txt =
     (if prefix ''PT'' txt then
        (let (h, r1) = opt_component CHR ''H'' (drop 2 txt);
             (m, r2) = opt_component CHR ''M'' r1;
             (s, r3) = opt_component CHR ''S'' r2
         in Some ((h, m, s), r3))
      else None)"

text \<open>\<^verbatim>\<open>int(m.group(i) or 0)\<close>; a group that took part is a non-empty string.\<close>

definition group_or_0 :: "string option \<Rightarrow> error + int" where
  "group_or_0 g = (case g of None \<Rightarrow> Inr 0 | Some ds \<Rightarrow> py_int ds)"

text \<open>
  The three conversions run in the order hours, minutes, seconds, and the first one that
  raises ends the call.
\<close>

definition iso_to_seconds :: "string \<Rightarrow> error + int" where
  "iso_to_seconds txt =
     (case match_duration txt of
        None \<Rightarrow> Inl AttributeError
      | Some ((h, m, s), _) \<Rightarrow>
          (case group_or_0 h of
             Inl e \<Rightarrow> Inl e
           | Inr hv \<Rightarrow>
          (case group_or_0 m of
             Inl e \<Rightarrow> Inl e
           | Inr mv \<Rightarrow>
          (case group_or_0 s of
             Inl e \<Rightarrow> Inl e
           | Inr sv \<Rightarrow> Inr (hv * 3600 + mv * 60 + sv)))))"

subsection \<open>\<^verbatim>\<open>chunk\<close>\<close>



section \<open>Data model\<close>

text \<open>
  An instant is a timezone-aware \<^verbatim>\<open>datetime\<close>, counted in microseconds from the epoch;
  aware datetimes compare by the instant they denote.
\<close>

type_synonym instant = int

text \<open>
  The dictionary \<^verbatim>\<open>fetch_video_details\<close> builds for one video. Every key is always
  present, so \<^verbatim>\<open>v["publishedAt"]\<close> cannot raise and \<^verbatim>\<open>x.get("likes", 0)\<close> is the field.
\<close>

record video =
  video_id :: string
  title :: string
  url :: string
  publishedAt :: "instant option"
  duration_seconds :: int
  likes :: int
  comments :: int
  thumbnail :: "string option"

text \<open>The dictionary \<^verbatim>\<open>compute_kpis\<close> returns.\<close>

record kpis =
  items :: "video list"
  count_total :: nat
  count_videos :: nat
  count_shorts :: nat
  most_liked :: "video option"
  most_commented :: "video option"

section \<open>Aggregation\<close>

definition in_range :: "instant option \<Rightarrow> instant \<Rightarrow> instant \<Rightarrow> bool" where
  "in_range ts start endt =
     (case ts of None \<Rightarrow> False | Some t \<Rightarrow> (t \<ge> start) \<and> (t < endt))"

text \<open>The three comprehensions of \<^verbatim>\<open>compute_kpis\<close>.\<close>

definition kpi_items :: "video list \<Rightarrow> instant \<Rightarrow> instant \<Rightarrow> video list" where
  "kpi_items videos start endt = filter (\<lambda>v. in_range (publishedAt v) start endt) videos"

definition videos_only :: "video list \<Rightarrow> int \<Rightarrow> video list" where
  "videos_only its short_threshold_sec =
     filter (\<lambda>v. duration_seconds v > short_threshold_sec) its"

definition shorts_only :: "video list \<Rightarrow> int \<Rightarrow> video list" where
  "shorts_only its short_threshold_sec =
     filter (\<lambda>v. duration_seconds v \<le> short_threshold_sec) its"

text \<open>The local function \<^verbatim>\<open>top_by\<close>; the key is the field the string names.\<close>

definition top_by :: "(video \<Rightarrow> int) \<Rightarrow> video list \<Rightarrow> video option" where
  "top_by k pool =
     (case pool of [] \<Rightarrow> None | x # xs \<Rightarrow> Some (py_max_from k x xs))"

text \<open>
  \<^verbatim>\<open>compute_kpis(videos, start, end, short_threshold_sec=60)\<close>; the threshold is passed
  explicitly.
\<close>

definition compute_kpis :: "video list \<Rightarrow> instant \<Rightarrow> instant \<Rightarrow> int \<Rightarrow> kpis" where
  "compute_kpis videos start endt short_threshold_sec =
     (let its = kpi_items videos start endt in
      \<lparr> items = its,
        count_total = length its,
        count_videos = length (videos_only its short_threshold_sec),
        count_shorts = length (shorts_only its short_threshold_sec),
        most_liked = top_by likes its,
        most_commented = top_by comments its \<rparr>)"

section \<open>The platform API\<close>

text \<open>
  Each \<^verbatim>\<open>requests.get\<close> of the source is one \<open>request\<close>: the endpoint and the
  parameters that vary. The functions below take the log of the requests issued so far
  and return it extended, so the number and the order of the network calls of a run can
  be read off.
\<close>

datatype request =
    ChannelsForHandle string string
  | ChannelsForUsername string string
  | SearchChannel string string
  | ChannelsContentDetails string string
  | PlaylistItems string string nat "string option"
  | Videos string "string list"

text \<open>
  One item of the \<^verbatim>\<open>videos\<close> endpoint, with the fields the source reads. A field read
  with \<^verbatim>\<open>.get\<close> may be absent; \<open>thumbs\<close> lists the URLs of the variants
  \<^verbatim>\<open>maxres\<close>, \<^verbatim>\<open>standard\<close>, \<^verbatim>\<open>high\<close>, \<^verbatim>\<open>medium\<close>, \<^verbatim>\<open>default\<close>
  in this order, \<open>None\<close> for a variant the item lacks.
\<close>

record api_video =
  it_id :: string
  it_title :: "string option"
  it_publishedAt :: "string option"
  it_duration :: string
  it_likeCount :: "string option"
  it_commentCount :: "string option"
  it_thumbs :: "string option list"

text \<open>
  The remote service, as a function of each request's parameters (the API key first).
  The three lookups of the resolver read \<^verbatim>\<open>r.json().get("items", [])\<close> without looking
  at the status, so their answer is the list of the items' channel IDs, empty when the
  body has no items. The other three endpoints answer \<open>Inl status\<close> where
  \<^verbatim>\<open>raise_for_status\<close> raises. A body is taken to have the shape the API documents.
  \<open>dtparse\<close> is \<^verbatim>\<open>dateutil.parser.parse\<close>.
\<close>

record youtube =
  channels_forHandle :: "string \<Rightarrow> string \<Rightarrow> string list"
  channels_forUsername :: "string \<Rightarrow> string \<Rightarrow> string list"
  search_channel :: "string \<Rightarrow> string \<Rightarrow> string list"
  channels_contentDetails :: "string \<Rightarrow> string \<Rightarrow> nat + string list"
  playlistItems :: "string \<Rightarrow> string \<Rightarrow> nat \<Rightarrow> string option \<Rightarrow> nat + (string list \<times> string option)"
  videos_by_id :: "string \<Rightarrow> string list \<Rightarrow> nat + api_video list"
  dtparse :: "string \<Rightarrow> error + instant"

section \<open>Channel resolver\<close>

text \<open>
  \<^verbatim>\<open>re.search\<close>: the pattern is tried at each position from the left, and the first
  position where it matches gives the result. \<open>m\<close> matches at the start of its argument
  and returns group 1.
\<close>

fun re_search :: "(string \<Rightarrow> string option) \<Rightarrow> string \<Rightarrow> string option" where
  "re_search m [] = m []"
| "re_search m (c # cs) = (case m (c # cs) of Some g \<Rightarrow> Some g | None \<Rightarrow> re_search m cs)"

text \<open>\<^verbatim>\<open>lit([class]+)\<close> at the start of \<open>s\<close>: the literal, then the longest non-empty run.\<close>

definition match_lit_run :: "string \<Rightarrow> (char \<Rightarrow> bool) \<Rightarrow> string \<Rightarrow> string option" where
  "match_lit_run lit P s =
     (if prefix lit s \<and> takeWhile P (drop (length lit) s) \<noteq> []
      then Some (takeWhile P (drop (length lit) s)) else None)"

text \<open>\<^verbatim>\<open>UC[0-9A-Za-z_-]{22}\<close> at the start of \<open>s\<close>; the result is the 24 characters matched.\<close>

definition match_channel_id :: "string \<Rightarrow> string option" where
  "match_channel_id s =
     (if prefix ''UC'' s \<and> length (take 22 (drop 2 s)) = 22 \<and> list_all is_id_char (take 22 (drop 2 s))
      then Some (take 24 s) else None)"

text \<open>\<^verbatim>\<open>re.fullmatch(r"UC[0-9A-Za-z_-]{22}", s)\<close> as a truth value.\<close>

definition fullmatch_channel_id :: "string \<Rightarrow> bool" where
  "fullmatch_channel_id s \<longleftrightarrow> match_channel_id s = Some s"

text \<open>\<^verbatim>\<open>/channel/(UC[0-9A-Za-z_-]{22})\<close> at the start of \<open>s\<close>.\<close>

definition match_channel_path :: "string \<Rightarrow> string option" where
  "match_channel_path s =
     (if prefix ''/channel/'' s then match_channel_id (drop 9 s) else None)"

definition channel_id_from_search ::
  "youtube \<Rightarrow> string \<Rightarrow> string \<Rightarrow> request list \<Rightarrow> (error + string) \<times> request list" where
  "channel_id_from_search yt api_key query log =
     (let log1 = log @ [SearchChannel api_key query] in
      case search_channel yt api_key query of
        [] \<Rightarrow> (Inl (ValueError (''No channel found for query: '' @ query)), log1)
      | i # _ \<Rightarrow> (Inr i, log1))"

definition channel_id_from_handle ::
  "youtube \<Rightarrow> string \<Rightarrow> string \<Rightarrow> request list \<Rightarrow> (error + string) \<times> request list" where
  "channel_id_from_handle yt api_key handle log =
     (let log1 = log @ [ChannelsForHandle api_key handle] in
      case channels_forHandle yt api_key handle of
        [] \<Rightarrow> (Inl (ValueError (''Handle not found: '' @ handle)), log1)
      | i # _ \<Rightarrow> (Inr i, log1))"

definition channel_id_from_username ::
  "youtube \<Rightarrow> string \<Rightarrow> string \<Rightarrow> request list \<Rightarrow> (error + string) \<times> request list" where
  "channel_id_from_username yt api_key username log =
     (let log1 = log @ [ChannelsForUsername api_key username] in
      case channels_forUsername yt api_key username of
        [] \<Rightarrow> channel_id_from_search yt api_key username log1
      | i # _ \<Rightarrow> (Inr i, log1))"

text \<open>
  \<^verbatim>\<open>resolve_to_channel_id(api_key, input_str)\<close>, for a string argument (the source maps
  \<^verbatim>\<open>None\<close> to the empty string first).
\<close>

definition resolve_to_channel_id ::
  "youtube \<Rightarrow> string \<Rightarrow> string \<Rightarrow> request list \<Rightarrow> (error + string) \<times> request list" where
  "resolve_to_channel_id yt api_key input_str log =
     (let s = py_strip input_str in
      if s = [] then (Inl (ValueError ''Empty channel input.''), log)
      else if fullmatch_channel_id s then (Inr s, log)
      else if prefix ''http://'' s \<or> prefix ''https://'' s then
        (case re_search match_channel_path s of
           Some cid \<Rightarrow> (Inr cid, log)
         | None \<Rightarrow>
        (case re_search (match_lit_run ''/@'' is_name_char) s of
           Some h \<Rightarrow> channel_id_from_handle yt api_key (''@'' @ h) log
         | None \<Rightarrow>
        (case re_search (match_lit_run ''/user/'' is_alnum) s of
           Some u \<Rightarrow> channel_id_from_username yt api_key u log
         | None \<Rightarrow>
        (case re_search (match_lit_run ''/c/'' is_name_char) s of
           Some c \<Rightarrow> channel_id_from_search yt api_key c log
         | None \<Rightarrow>
             channel_id_from_search yt api_key
               (last_segment (py_rstrip (\<lambda>c. c = CHR ''/'') s)) log))))
      else if prefix ''@'' s then channel_id_from_handle yt api_key s log
      else channel_id_from_username yt api_key s log)"

section \<open>Fetch pipeline\<close>


text \<open>\<^verbatim>\<open>not token\<close>: the token is \<^verbatim>\<open>None\<close> or the empty string.\<close>

definition no_token :: "string option \<Rightarrow> bool" where
  "no_token token \<longleftrightarrow> (case token of None \<Rightarrow> True | Some t \<Rightarrow> t = [])"

text \<open>
  The \<^verbatim>\<open>while True\<close> loop of \<^verbatim>\<open>list_upload_video_ids\<close>, entered with the IDs
  gathered so far and the token of the page to ask for. A service that keeps answering
  with a token and too few items keeps the loop running, so the loop is a partial
  function: \<open>None\<close> stands for a run that does not return.
\<close>

partial_function (option) list_upload_loop ::
  "youtube \<Rightarrow> string \<Rightarrow> string \<Rightarrow> int \<Rightarrow> string list \<Rightarrow> string option \<Rightarrow> request list
     \<Rightarrow> ((error + string list) \<times> request list) option" where
  "list_upload_loop yt api_key uploads_playlist_id max_items ids token log =
     (let log1 = log @ [PlaylistItems api_key uploads_playlist_id 50 token] in
      case playlistItems yt api_key uploads_playlist_id 50 token of
        Inl status \<Rightarrow> Some (Inl (HTTPError status), log1)
      | Inr (page, next_token) \<Rightarrow>
          (let ids1 = ids @ page in
           if no_token next_token \<or> int (length ids1) \<ge> max_items
           then Some (Inr (py_slice_to ids1 max_items), log1)
           else list_upload_loop yt api_key uploads_playlist_id max_items ids1 next_token log1))"













section \<open>Notions for the statements and the examples\<close>

text \<open>
  A duration text of the shape \<^verbatim>\<open>PT#H#M#S\<close> is \<^verbatim>\<open>PT\<close> followed by up to three
  components in this order, each a non-empty run of decimal digits and its unit letter.
  \<open>component g u\<close> writes one component, nothing when \<open>g\<close> is absent.
\<close>

definition component :: "string option \<Rightarrow> char \<Rightarrow> string" where
  "component g u = (case g of None \<Rightarrow> [] | Some ds \<Rightarrow> ds @ [u])"

definition digits_or_absent :: "string option \<Rightarrow> bool" where
  "digits_or_absent g \<longleftrightarrow>
     (case g of None \<Rightarrow> True | Some ds \<Rightarrow> ds \<noteq> [] \<and> list_all is_digit ds)"

definition duration_text :: "string option \<Rightarrow> string option \<Rightarrow> string option \<Rightarrow> string" where
  "duration_text h m s = ''PT'' @ component h CHR ''H'' @ component m CHR ''M'' @ component s CHR ''S''"

text \<open>
  The texts of that shape, recognised from left to right: \<open>skip_component u s\<close> removes a
  leading component with the unit \<open>u\<close> when there is one. The lemma
  \<open>well_formed_duration_iff\<close> below states that these are the texts
  \<open>duration_text h m s\<close>.
\<close>

definition skip_component :: "char \<Rightarrow> string \<Rightarrow> string" where
  "skip_component u s =
     (case dropWhile is_digit s of
        [] \<Rightarrow> s
      | c # r \<Rightarrow> if takeWhile is_digit s \<noteq> [] \<and> c = u then r else s)"

definition well_formed_duration :: "string \<Rightarrow> bool" where
  "well_formed_duration d \<longleftrightarrow>
     prefix ''PT'' d \<and>
     skip_component CHR ''S'' (skip_component CHR ''M'' (skip_component CHR ''H'' (drop 2 d))) = []"

text \<open>
  \<open>within_limit g\<close>: a component that is present has no more digits than the integer
  conversion accepts.
\<close>

definition within_limit :: "string option \<Rightarrow> bool" where
  "within_limit g \<longleftrightarrow> (case g of None \<Rightarrow> True | Some ds \<Rightarrow> length ds \<le> int_max_str_digits)"

text \<open>
  \<open>longest_well_formed_prefix p d\<close>: \<open>p\<close> is a well-formed duration text that \<open>d\<close> starts
  with, and every well-formed duration text that \<open>d\<close> starts with is a prefix of \<open>p\<close>.
\<close>

definition longest_well_formed_prefix :: "string \<Rightarrow> string \<Rightarrow> bool" where
  "longest_well_formed_prefix p d \<longleftrightarrow>
     prefix p d \<and> well_formed_duration p \<and>
     list_all (\<lambda>q. well_formed_duration q \<longrightarrow> prefix q p) (prefixes d)"

text \<open>
  \<open>first_argmax k xs v\<close>: \<open>v\<close> stands at a position of \<open>xs\<close> where the key is maximal, and
  every element before that position has a strictly smaller key.
\<close>

definition first_argmax :: "('a \<Rightarrow> int) \<Rightarrow> 'a list \<Rightarrow> 'a \<Rightarrow> bool" where
  "first_argmax k xs v \<longleftrightarrow>
     (\<exists>i<length xs. xs ! i = v \<and> (\<forall>j<length xs. k (xs ! j) \<le> k v) \<and> (\<forall>j<i. k (xs ! j) < k v))"

text \<open>
  A video record for the examples: its ID, publish instant, duration, likes and comments.
\<close>

definition sample_video :: "string \<Rightarrow> instant option \<Rightarrow> int \<Rightarrow> int \<Rightarrow> int \<Rightarrow> video" where
  "sample_video i p d l c =
     \<lparr> video_id = i, title = ''video '' @ i, url = ''https://www.youtube.com/watch?v='' @ i,
       publishedAt = p, duration_seconds = d, likes = l, comments = c, thumbnail = None \<rparr>"






text \<open>
  A service for the examples. It serves the uploads container \<open>c\<close> in pages of the size
  asked for; the token of a page is as many characters as there are items before it, and
  the last page carries no token. Its details endpoint answers every ID with a
  \<open>sample_item\<close>, and it knows no handle, user name or search result.
\<close>

definition sample_item :: "string \<Rightarrow> api_video" where
  "sample_item i =
     \<lparr> it_id = i, it_title = Some (''video '' @ i), it_publishedAt = None,
       it_duration = ''PT1M30S'', it_likeCount = Some ''7'', it_commentCount = None,
       it_thumbs = [None, None, Some (''https://i.ytimg.com/vi/'' @ i @ ''/hq.jpg''), None, None] \<rparr>"

definition page_offset :: "string option \<Rightarrow> nat" where
  "page_offset token = (case token of None \<Rightarrow> 0 | Some t \<Rightarrow> length t)"

definition sample_service :: "string list \<Rightarrow> youtube" where
  "sample_service c =
     \<lparr> channels_forHandle = (\<lambda>k h. []),
       channels_forUsername = (\<lambda>k u. []),
       search_channel = (\<lambda>k q. []),
       channels_contentDetails = (\<lambda>k ch. Inr [''UU'' @ drop 2 ch]),
       playlistItems = (\<lambda>k pl n token.
          Inr (take n (drop (page_offset token) c),
               if page_offset token + n < length c
               then Some (replicate (page_offset token + n) CHR ''x'') else None)),
       videos_by_id = (\<lambda>k g. Inr (map sample_item g)),
       dtparse = (\<lambda>s. Inl ParserError) \<rparr>"





section \<open>The duration decoder\<close>

lemma takeWhile_digits_stop:
  "list_all is_digit ds \<Longrightarrow> \<not> is_digit v \<Longrightarrow> takeWhile is_digit (ds @ v # r) = ds"
  by (induction ds) auto

lemma dropWhile_digits_stop:
  "list_all is_digit ds \<Longrightarrow> \<not> is_digit v \<Longrightarrow> dropWhile is_digit (ds @ v # r) = v # r"
  by (induction ds) auto

lemma opt_component_Nil: "opt_component u [] = (None, [])"
  by (simp add: opt_component_def)

lemma opt_component_hit:
  "ds \<noteq> [] \<Longrightarrow> list_all is_digit ds \<Longrightarrow> \<not> is_digit u \<Longrightarrow>
   opt_component u (ds @ u # r) = (Some ds, r)"
  by (simp add: opt_component_def takeWhile_digits_stop dropWhile_digits_stop)

lemma opt_component_other_unit:
  "list_all is_digit ds \<Longrightarrow> \<not> is_digit v \<Longrightarrow> v \<noteq> u \<Longrightarrow>
   opt_component u (ds @ v # r) = (None, ds @ v # r)"
  by (simp add: opt_component_def takeWhile_digits_stop dropWhile_digits_stop)

lemma unit_not_digit:
  "\<not> is_digit CHR ''H''" "\<not> is_digit CHR ''M''" "\<not> is_digit CHR ''S''"
  by (simp_all add: is_digit_def)

lemma match_duration_text:
  assumes "digits_or_absent h" "digits_or_absent m" "digits_or_absent s"
  shows "match_duration (duration_text h m s) = Some ((h, m, s), [])"
  using assms
  by (cases h; cases m; cases s)
     (simp_all add: match_duration_def duration_text_def component_def digits_or_absent_def
        opt_component_Nil opt_component_hit opt_component_other_unit unit_not_digit)

lemma opt_component_decomp:
  assumes "opt_component u s = (g, r)"
  shows "digits_or_absent g \<and> s = component g u @ r"
proof (cases "dropWhile is_digit s")
  case Nil
  with assms show ?thesis
    by (auto simp: opt_component_def digits_or_absent_def component_def)
next
  case (Cons c r')
  have id: "takeWhile is_digit s @ dropWhile is_digit s = s" by simp
  have dg: "list_all is_digit (takeWhile is_digit s)"
    by (simp add: list_all_iff) (meson set_takeWhileD)
  show ?thesis
  proof (cases "takeWhile is_digit s \<noteq> [] \<and> c = u")
    case True
    with assms Cons have g: "g = Some (takeWhile is_digit s)" and r: "r = r'"
      by (auto simp: opt_component_def)
    from id Cons True have "s = takeWhile is_digit s @ u # r'" by simp
    with g r True dg show ?thesis
      by (simp add: digits_or_absent_def component_def)
  next
    case False
    with assms Cons have "g = None" "r = s"
      by (auto simp: opt_component_def)
    then show ?thesis by (simp add: digits_or_absent_def component_def)
  qed
qed

lemma snd_opt_component: "snd (opt_component u s) = skip_component u s"
  by (cases "dropWhile is_digit s") (simp_all only: opt_component_def skip_component_def list.case snd_conv if_distrib [of snd] cong: if_cong)

lemma match_duration_decomp:
  assumes "match_duration d = Some ((h, m, s), r)"
  shows "digits_or_absent h \<and> digits_or_absent m \<and> digits_or_absent s \<and>
         d = duration_text h m s @ r"
proof -
  from assms have p: "prefix ''PT'' d"
    by (simp add: match_duration_def split: if_splits)
  then have d: "d = ''PT'' @ drop 2 d"
    by (auto simp: prefix_def)
  obtain h' r1 where 1: "opt_component CHR ''H'' (drop 2 d) = (h', r1)" by fastforce
  obtain m' r2 where 2: "opt_component CHR ''M'' r1 = (m', r2)" by fastforce
  obtain s' r3 where 3: "opt_component CHR ''S'' r2 = (s', r3)" by fastforce
  from assms p 1 2 3 have eq: "h' = h" "m' = m" "s' = s" "r3 = r"
    by (simp_all add: match_duration_def)
  from opt_component_decomp [OF 1] opt_component_decomp [OF 2] opt_component_decomp [OF 3] eq
  have "digits_or_absent h" "digits_or_absent m" "digits_or_absent s"
    "drop 2 d = component h CHR ''H'' @ component m CHR ''M'' @ component s CHR ''S'' @ r"
    by simp_all
  with d show ?thesis
    by (metis append.assoc duration_text_def)
qed

lemma match_duration_prefix:
  "prefix ''PT'' d \<Longrightarrow> \<exists>h m s r. match_duration d = Some ((h, m, s), r)"
  by (simp add: match_duration_def split: prod.splits)

lemma match_duration_None: "\<not> prefix ''PT'' d \<Longrightarrow> match_duration d = None"
  by (simp add: match_duration_def)

lemma well_formed_duration_match:
  "well_formed_duration d \<longleftrightarrow> (\<exists>g. match_duration d = Some (g, []))"
  by (auto simp: well_formed_duration_def match_duration_def snd_opt_component [symmetric]
           split: prod.splits)

lemma well_formed_duration_iff:
  "well_formed_duration d \<longleftrightarrow>
     (\<exists>h m s. digits_or_absent h \<and> digits_or_absent m \<and> digits_or_absent s \<and>
        d = duration_text h m s)"
proof
  assume "well_formed_duration d"
  then obtain h m s where "match_duration d = Some ((h, m, s), [])"
    by (auto simp: well_formed_duration_match)
  from match_duration_decomp [OF this] show "\<exists>h m s. digits_or_absent h \<and> digits_or_absent m \<and> digits_or_absent s \<and>
        d = duration_text h m s" by auto
next
  assume "\<exists>h m s. digits_or_absent h \<and> digits_or_absent m \<and> digits_or_absent s \<and>
        d = duration_text h m s"
  then show "well_formed_duration d"
    by (auto simp: well_formed_duration_match match_duration_text)
qed

lemma digit_value_nonneg: "is_digit c \<Longrightarrow> 0 \<le> digit_value c"
  by (simp add: is_digit_def digit_value_def)

lemma foldl_digits_nonneg:
  "list_all is_digit ds \<Longrightarrow> 0 \<le> a \<Longrightarrow> 0 \<le> foldl (\<lambda>acc c. 10 * acc + digit_value c) a ds"
proof (induction ds arbitrary: a)
  case Nil
  then show ?case by simp
next
  case (Cons c ds)
  from Cons.prems have "0 \<le> 10 * a + digit_value c"
    using digit_value_nonneg [of c] by simp
  with Cons show ?case by simp
qed

lemma int_of_digits_nonneg: "list_all is_digit ds \<Longrightarrow> 0 \<le> int_of_digits ds"
  by (simp add: int_of_digits_def foldl_digits_nonneg)

lemma takeWhile_all_digits: "list_all is_digit ds \<Longrightarrow> takeWhile is_digit ds = ds"
  by (simp add: list_all_iff)

lemma py_int_digits:
  assumes "ds \<noteq> []" "list_all is_digit ds" "length ds \<le> int_max_str_digits"
  shows "py_int ds = Inr (int_of_digits ds)"
  using assms by (simp add: py_int_def takeWhile_all_digits)

lemma py_int_over_limit:
  assumes "list_all is_digit ds" "\<not> length ds \<le> int_max_str_digits"
  shows "\<exists>msg. py_int ds = Inl (ValueError msg)"
  using assms by (simp add: py_int_def takeWhile_all_digits)

lemma group_or_0_value:
  assumes "digits_or_absent g" "within_limit g"
  shows "group_or_0 g = Inr (case g of None \<Rightarrow> 0 | Some ds \<Rightarrow> int_of_digits ds)"
  using assms
  by (cases g) (simp_all add: group_or_0_def digits_or_absent_def within_limit_def py_int_digits)

lemma group_or_0_over_limit:
  assumes "digits_or_absent g" "\<not> within_limit g"
  shows "\<exists>msg. group_or_0 g = Inl (ValueError msg)"
  using assms
  by (cases g) (simp_all add: group_or_0_def digits_or_absent_def within_limit_def py_int_over_limit)

lemma group_value_nonneg:
  "digits_or_absent g \<Longrightarrow> 0 \<le> (case g of None \<Rightarrow> 0 | Some ds \<Rightarrow> int_of_digits ds)"
  by (cases g) (simp_all add: digits_or_absent_def int_of_digits_nonneg)

lemma iso_to_seconds_of_match:
  assumes md: "match_duration d = Some ((h, m, s), r)"
    and lim: "within_limit h" "within_limit m" "within_limit s"
  shows "iso_to_seconds d =
           Inr ((case h of None \<Rightarrow> 0 | Some ds \<Rightarrow> int_of_digits ds) * 3600
              + (case m of None \<Rightarrow> 0 | Some ds \<Rightarrow> int_of_digits ds) * 60
              + (case s of None \<Rightarrow> 0 | Some ds \<Rightarrow> int_of_digits ds))"
proof -
  from match_duration_decomp [OF md]
  have dg: "digits_or_absent h" "digits_or_absent m" "digits_or_absent s" by simp_all
  show ?thesis
    using md group_or_0_value [OF dg(1) lim(1)] group_or_0_value [OF dg(2) lim(2)]
      group_or_0_value [OF dg(3) lim(3)]
    by (simp add: iso_to_seconds_def)
qed

lemma iso_to_seconds_match_cases:
  assumes md: "match_duration d = Some ((h, m, s), r)"
  shows "(\<exists>n. 0 \<le> n \<and> iso_to_seconds d = Inr n) \<or> (\<exists>msg. iso_to_seconds d = Inl (ValueError msg))"
proof -
  from match_duration_decomp [OF md]
  have dg: "digits_or_absent h" "digits_or_absent m" "digits_or_absent s" by simp_all
  show ?thesis
  proof (cases "within_limit h \<and> within_limit m \<and> within_limit s")
    case True
    then have "iso_to_seconds d =
           Inr ((case h of None \<Rightarrow> 0 | Some ds \<Rightarrow> int_of_digits ds) * 3600
              + (case m of None \<Rightarrow> 0 | Some ds \<Rightarrow> int_of_digits ds) * 60
              + (case s of None \<Rightarrow> 0 | Some ds \<Rightarrow> int_of_digits ds))"
      using iso_to_seconds_of_match [OF md] by simp
    moreover have "0 \<le> (case h of None \<Rightarrow> 0 | Some ds \<Rightarrow> int_of_digits ds) * 3600
              + (case m of None \<Rightarrow> 0 | Some ds \<Rightarrow> int_of_digits ds) * 60
              + (case s of None \<Rightarrow> 0 | Some ds \<Rightarrow> int_of_digits ds)"
      using group_value_nonneg [OF dg(1)] group_value_nonneg [OF dg(2)] group_value_nonneg [OF dg(3)]
      by simp
    ultimately show ?thesis by simp
  next
    case False
    have hv: "(\<exists>n. group_or_0 g = Inr n) \<or> (\<exists>msg. group_or_0 g = Inl (ValueError msg))"
      if "digits_or_absent g" for g
      using that group_or_0_value [of g] group_or_0_over_limit [of g] by blast
    from False consider "\<not> within_limit h" | "\<not> within_limit m" | "\<not> within_limit s" by blast
    then have "\<exists>msg. iso_to_seconds d = Inl (ValueError msg)"
    proof cases
      case 1
      from group_or_0_over_limit [OF dg(1) 1] md show ?thesis
        by (auto simp: iso_to_seconds_def)
    next
      case 2
      from group_or_0_over_limit [OF dg(2) 2] hv [OF dg(1)] md show ?thesis
        by (auto simp: iso_to_seconds_def)
    next
      case 3
      from group_or_0_over_limit [OF dg(3) 3] hv [OF dg(1)] hv [OF dg(2)] md show ?thesis
        by (auto simp: iso_to_seconds_def)
    qed
    then show ?thesis by blast
  qed
qed

lemma match_duration_within_limit:
  assumes md: "match_duration d = Some ((h, m, s), r)" and len: "length d \<le> int_max_str_digits"
  shows "within_limit h \<and> within_limit m \<and> within_limit s"
proof -
  from match_duration_decomp [OF md] have d: "d = duration_text h m s @ r" by simp
  have c: "within_limit g" if "length (component g u) \<le> int_max_str_digits" for g u
    using that by (cases g) (simp_all add: within_limit_def component_def)
  from d have "length d = 2 + length (component h CHR ''H'') + length (component m CHR ''M'')
      + length (component s CHR ''S'') + length r"
    by (simp add: duration_text_def)
  with len have "length (component h CHR ''H'') \<le> int_max_str_digits"
    "length (component m CHR ''M'') \<le> int_max_str_digits"
    "length (component s CHR ''S'') \<le> int_max_str_digits" by simp_all
  then show ?thesis by (simp add: c)
qed

lemma iso_to_seconds_over_limit:
  assumes "list_all is_digit ds" "length ds > int_max_str_digits"
  shows "iso_to_seconds (''PT'' @ ds @ ''S'') =
     Inl (ValueError (''Exceeds the limit (4300 digits) for integer string conversion: value has ''
            @ decimal (length ds)
            @ '' digits; use sys.set_int_max_str_digits() to increase the limit''))"
proof -
  from assms(2) have ne: "ds \<noteq> []" by auto
  with assms(1) have dg: "digits_or_absent (Some ds)"
    by (simp add: digits_or_absent_def)
  have n: "digits_or_absent None" by (simp add: digits_or_absent_def)
  have t: "duration_text None None (Some ds) = ''PT'' @ ds @ ''S''"
    by (simp add: duration_text_def component_def)
  have "py_int ds =
     Inl (ValueError (''Exceeds the limit (4300 digits) for integer string conversion: value has ''
            @ decimal (length ds)
            @ '' digits; use sys.set_int_max_str_digits() to increase the limit''))"
    using assms by (simp add: py_int_def takeWhile_all_digits)
  with match_duration_text [OF n n dg] show ?thesis
    unfolding t by (simp add: iso_to_seconds_def group_or_0_def)
qed

lemma opt_component_prefix_miss:
  assumes "opt_component u y = (None, y')" "\<not> is_digit u" "prefix q y"
  shows "opt_component u q = (None, q)"
proof (rule ccontr)
  assume "opt_component u q \<noteq> (None, q)"
  then obtain c r where dq: "dropWhile is_digit q = c # r" and tq: "takeWhile is_digit q \<noteq> []"
    and cu: "c = u"
    by (auto simp: opt_component_def split: list.splits if_splits)
  have "q = takeWhile is_digit q @ u # r"
    using takeWhile_dropWhile_id [of is_digit q] dq cu by simp
  moreover from assms(3) obtain z where "y = q @ z" by (auto simp: prefix_def)
  ultimately have y: "y = takeWhile is_digit q @ u # (r @ z)" by simp
  have "list_all is_digit (takeWhile is_digit q)"
    by (simp add: list_all_iff) (meson set_takeWhileD)
  from opt_component_hit [OF tq this assms(2), of "r @ z"] y assms(1)
  show False by simp
qed

lemma opt_component_stable:
  assumes oc: "opt_component u x = (g, y)" and u: "\<not> is_digit u" and q: "prefix q y"
  shows "opt_component u (component g u @ q) = (g, q)"
proof (cases g)
  case None
  with opt_component_decomp [OF oc] have "x = y" by (simp add: component_def)
  with oc None have "opt_component u y = (None, y)" by simp
  from opt_component_prefix_miss [OF this u q] None show ?thesis
    by (simp add: component_def)
next
  case (Some ds)
  with opt_component_decomp [OF oc] have "ds \<noteq> []" "list_all is_digit ds"
    by (simp_all add: digits_or_absent_def)
  from opt_component_hit [OF this u, of q] Some show ?thesis
    by (simp add: component_def)
qed

lemma match_duration_stable:
  assumes md: "match_duration d = Some ((h, m, s), r)" and q: "prefix q r"
  shows "match_duration (duration_text h m s @ q) = Some ((h, m, s), q)"
proof -
  from md have p: "prefix ''PT'' d"
    by (simp add: match_duration_def split: if_splits)
  obtain h' r1 where 1: "opt_component CHR ''H'' (drop 2 d) = (h', r1)" by fastforce
  obtain m' r2 where 2: "opt_component CHR ''M'' r1 = (m', r2)" by fastforce
  obtain s' r3 where 3: "opt_component CHR ''S'' r2 = (s', r3)" by fastforce
  from md p 1 2 3 have eq: "h' = h" "m' = m" "s' = s" "r3 = r"
    by (simp_all add: match_duration_def)
  from opt_component_decomp [OF 3] eq have r2: "r2 = component s CHR ''S'' @ r" by simp
  from opt_component_decomp [OF 2] eq r2
  have r1: "r1 = component m CHR ''M'' @ component s CHR ''S'' @ r" by simp
  from q have q2: "prefix (component s CHR ''S'' @ q) r2" by (simp add: r2)
  from q have q1: "prefix (component m CHR ''M'' @ component s CHR ''S'' @ q) r1" by (simp add: r1)
  from opt_component_stable [OF 1 unit_not_digit(1) q1] eq
  have a: "opt_component CHR ''H'' (component h CHR ''H'' @ component m CHR ''M'' @ component s CHR ''S'' @ q)
      = (h, component m CHR ''M'' @ component s CHR ''S'' @ q)" by simp
  from opt_component_stable [OF 2 unit_not_digit(2) q2] eq
  have b: "opt_component CHR ''M'' (component m CHR ''M'' @ component s CHR ''S'' @ q)
      = (m, component s CHR ''S'' @ q)" by simp
  from opt_component_stable [OF 3 unit_not_digit(3), of q] q eq
  have c: "opt_component CHR ''S'' (component s CHR ''S'' @ q) = (s, q)" by simp
  show ?thesis
    by (simp add: match_duration_def duration_text_def a b c)
qed

lemma longest_well_formed_prefix_iff:
  "longest_well_formed_prefix p d \<longleftrightarrow>
     prefix p d \<and> well_formed_duration p \<and> (\<forall>q. prefix q d \<and> well_formed_duration q \<longrightarrow> prefix q p)"
proof -
  have "list_all (\<lambda>q. well_formed_duration q \<longrightarrow> prefix q p) (prefixes d) \<longleftrightarrow>
        (\<forall>q. q \<in> set (prefixes d) \<longrightarrow> well_formed_duration q \<longrightarrow> prefix q p)"
    by (simp only: list_all_iff Ball_def)
  also have "\<dots> \<longleftrightarrow> (\<forall>q. prefix q d \<and> well_formed_duration q \<longrightarrow> prefix q p)"
    by (simp only: in_set_prefixes) blast
  finally show ?thesis
    by (simp only: longest_well_formed_prefix_def)
qed

lemma match_duration_longest:
  assumes md: "match_duration d = Some ((h, m, s), r)"
  shows "longest_well_formed_prefix (duration_text h m s) d"
proof -
  from match_duration_decomp [OF md]
  have dg: "digits_or_absent h" "digits_or_absent m" "digits_or_absent s"
    and d: "d = duration_text h m s @ r" by simp_all
  have wf: "well_formed_duration (duration_text h m s)"
    using dg by (auto simp: well_formed_duration_iff)
  have mx: "prefix q (duration_text h m s)" if q: "prefix q d" "well_formed_duration q" for q
  proof (rule ccontr)
    assume n: "\<not> prefix q (duration_text h m s)"
    from q(1) d have "prefix q (duration_text h m s @ r)" by simp
    with n obtain q' where q': "q = duration_text h m s @ q'" "prefix q' r" "q' \<noteq> []"
      by (auto simp: prefix_append)
    from match_duration_stable [OF md q'(2)] q'(1)
    have "match_duration q = Some ((h, m, s), q')" by simp
    with q(2) q'(3) show False by (auto simp: well_formed_duration_match)
  qed
  have pd: "prefix (duration_text h m s) d"
    by (subst d) (rule prefixI, rule refl)
  from pd wf mx show ?thesis
    unfolding longest_well_formed_prefix_iff by blast
qed

lemma duration_text_inject:
  assumes "digits_or_absent h" "digits_or_absent m" "digits_or_absent s"
    and "digits_or_absent h'" "digits_or_absent m'" "digits_or_absent s'"
    and "duration_text h m s = duration_text h' m' s'"
  shows "h = h' \<and> m = m' \<and> s = s'"
proof -
  have "match_duration (duration_text h' m' s') = Some ((h, m, s), [])"
    using match_duration_text [OF assms(1-3)] unfolding assms(7) .
  with match_duration_text [OF assms(4-6)] show ?thesis by simp
qed

lemma longest_well_formed_prefix_unique:
  assumes "longest_well_formed_prefix p d" "longest_well_formed_prefix p' d"
  shows "p = p'"
proof -
  from assms have "prefix p p'" "prefix p' p"
    unfolding longest_well_formed_prefix_iff by blast+
  then show ?thesis by (rule prefix_order.antisym)
qed

text \<open>
  C7. The decoder maps \<^verbatim>\<open>PT1H2M3S\<close> to 3723, \<^verbatim>\<open>PT45S\<close> to 45, \<^verbatim>\<open>PT2H\<close> to 7200 and
  \<^verbatim>\<open>PT\<close> to 0; in general a text of the shape \<^verbatim>\<open>PT#H#M#S\<close> whose components stay
  within the digit limit of the integer conversion decodes to
  \<open>3600 * hours + 60 * minutes + seconds\<close>, where a component that is missing counts as 0
  and one that is present counts as the number its digits write.
\<close>

theorem iso_to_seconds_shape:
  "iso_to_seconds ''PT1H2M3S'' = Inr 3723 \<and>
   iso_to_seconds ''PT45S'' = Inr 45 \<and>
   iso_to_seconds ''PT2H'' = Inr 7200 \<and>
   iso_to_seconds ''PT'' = Inr 0 \<and>
   (digits_or_absent h \<and> digits_or_absent m \<and> digits_or_absent s \<and>
    within_limit h \<and> within_limit m \<and> within_limit s \<longrightarrow>
      iso_to_seconds (duration_text h m s) =
        Inr ((case h of None \<Rightarrow> 0 | Some ds \<Rightarrow> int_of_digits ds) * 3600
           + (case m of None \<Rightarrow> 0 | Some ds \<Rightarrow> int_of_digits ds) * 60
           + (case s of None \<Rightarrow> 0 | Some ds \<Rightarrow> int_of_digits ds)))"
proof -
  have ex: "iso_to_seconds ''PT1H2M3S'' = Inr 3723" "iso_to_seconds ''PT45S'' = Inr 45"
    "iso_to_seconds ''PT2H'' = Inr 7200" "iso_to_seconds ''PT'' = Inr 0"
    by (simp_all add: iso_to_seconds_def match_duration_def opt_component_def is_digit_def
          group_or_0_def py_int_def int_max_str_digits_def int_of_digits_def digit_value_def)
  have gen: "iso_to_seconds (duration_text h m s) =
        Inr ((case h of None \<Rightarrow> 0 | Some ds \<Rightarrow> int_of_digits ds) * 3600
           + (case m of None \<Rightarrow> 0 | Some ds \<Rightarrow> int_of_digits ds) * 60
           + (case s of None \<Rightarrow> 0 | Some ds \<Rightarrow> int_of_digits ds))"
    if "digits_or_absent h" "digits_or_absent m" "digits_or_absent s"
      and "within_limit h" "within_limit m" "within_limit s"
    using iso_to_seconds_of_match [OF match_duration_text [OF that(1-3)] that(4-6)] .
  from ex gen show ?thesis by blast
qed

theorem iso_to_seconds_shape_witness:
  "digits_or_absent (Some ''1'') \<and> digits_or_absent None \<and> digits_or_absent (Some ''30'') \<and>
   within_limit (Some ''1'') \<and> within_limit None \<and> within_limit (Some ''30'') \<and>
   duration_text (Some ''1'') None (Some ''30'') = ''PT1H30S'' \<and>
   iso_to_seconds ''PT1H30S'' = Inr 3630"
proof -
  have d: "digits_or_absent (Some ''1'')" "digits_or_absent None" "digits_or_absent (Some ''30'')"
    by (simp_all add: digits_or_absent_def is_digit_def)
  have l: "within_limit (Some ''1'')" "within_limit None" "within_limit (Some ''30'')"
    by (simp_all add: within_limit_def int_max_str_digits_def)
  have t: "duration_text (Some ''1'') None (Some ''30'') = ''PT1H30S''"
    by (simp add: duration_text_def component_def)
  have v: "int_of_digits ''1'' = 1" "int_of_digits ''30'' = 30"
    by (simp_all add: int_of_digits_def digit_value_def)
  from iso_to_seconds_shape [of "Some ''1''" None "Some ''30''"] d l
  have "iso_to_seconds (duration_text (Some ''1'') None (Some ''30'')) = Inr 3630"
    by (simp add: v)
  with d l t show ?thesis by simp
qed

text \<open>
  C9. The decoder is not total: on every text that does not begin with \<^verbatim>\<open>PT\<close>, among them
  the valid duration \<^verbatim>\<open>P1DT2H\<close> with a day component, the match is \<^verbatim>\<open>None\<close> and the
  decoder raises; it returns an integer only on a text that begins with \<^verbatim>\<open>PT\<close>, and that
  integer is non-negative. On a text that begins with \<^verbatim>\<open>PT\<close> it returns such an integer
  or raises the \<^verbatim>\<open>ValueError\<close> of the integer conversion, and it returns when the text is
  no longer than the digit limit.
\<close>

theorem iso_to_seconds_partial:
  "(\<not> prefix ''PT'' d \<longrightarrow> iso_to_seconds d = Inl AttributeError) \<and>
   (prefix ''PT'' d \<longrightarrow>
      (\<exists>n. 0 \<le> n \<and> iso_to_seconds d = Inr n) \<or> (\<exists>msg. iso_to_seconds d = Inl (ValueError msg))) \<and>
   (prefix ''PT'' d \<and> length d \<le> int_max_str_digits \<longrightarrow>
      (\<exists>n. 0 \<le> n \<and> iso_to_seconds d = Inr n)) \<and>
   (iso_to_seconds d = Inr k \<longrightarrow> prefix ''PT'' d \<and> 0 \<le> k) \<and>
   iso_to_seconds ''P1DT2H'' = Inl AttributeError"
proof -
  have no: "iso_to_seconds d = Inl AttributeError" if "\<not> prefix ''PT'' d" for d
    using that by (simp add: iso_to_seconds_def match_duration_None)
  have yes: "(\<exists>n. 0 \<le> n \<and> iso_to_seconds d = Inr n) \<or> (\<exists>msg. iso_to_seconds d = Inl (ValueError msg))"
    if "prefix ''PT'' d"
  proof -
    from that obtain h m s r where md: "match_duration d = Some ((h, m, s), r)"
      using match_duration_prefix by blast
    from iso_to_seconds_match_cases [OF md] show ?thesis .
  qed
  have short: "\<exists>n. 0 \<le> n \<and> iso_to_seconds d = Inr n"
    if "prefix ''PT'' d" "length d \<le> int_max_str_digits"
  proof -
    from that obtain h m s r where md: "match_duration d = Some ((h, m, s), r)"
      using match_duration_prefix by blast
    from match_duration_within_limit [OF md that(2)]
    have lim: "within_limit h" "within_limit m" "within_limit s" by simp_all
    from match_duration_decomp [OF md]
    have dg: "digits_or_absent h" "digits_or_absent m" "digits_or_absent s" by simp_all
    have "0 \<le> (case h of None \<Rightarrow> 0 | Some ds \<Rightarrow> int_of_digits ds) * 3600
              + (case m of None \<Rightarrow> 0 | Some ds \<Rightarrow> int_of_digits ds) * 60
              + (case s of None \<Rightarrow> 0 | Some ds \<Rightarrow> int_of_digits ds)"
      using group_value_nonneg [OF dg(1)] group_value_nonneg [OF dg(2)] group_value_nonneg [OF dg(3)]
      by simp
    with iso_to_seconds_of_match [OF md lim] show ?thesis by simp
  qed
  have conv: "prefix ''PT'' d \<and> 0 \<le> k" if "iso_to_seconds d = Inr k"
  proof (cases "prefix ''PT'' d")
    case True
    with yes that show ?thesis by auto
  next
    case False
    with no [of d] that show ?thesis by simp
  qed
  have "\<not> prefix ''PT'' ''P1DT2H''" by simp
  from no [OF this] no yes short conv show ?thesis by blast
qed

theorem iso_to_seconds_partial_witness:
  "\<not> prefix ''PT'' ''P0D'' \<and> iso_to_seconds ''P0D'' = Inl AttributeError \<and>
   prefix ''PT'' ''PT5M'' \<and> length ''PT5M'' \<le> int_max_str_digits \<and>
   iso_to_seconds ''PT5M'' = Inr 300 \<and> (0::int) \<le> 300"
proof -
  have v: "iso_to_seconds ''PT5M'' = Inr 300"
    by (simp add: iso_to_seconds_def match_duration_def opt_component_def is_digit_def
          group_or_0_def py_int_def int_max_str_digits_def int_of_digits_def digit_value_def)
  have p: "\<not> prefix ''PT'' ''P0D''" "prefix ''PT'' ''PT5M''"
    "length ''PT5M'' \<le> int_max_str_digits" by (simp_all add: int_max_str_digits_def)
  from iso_to_seconds_partial [of "''P0D''" 0] p(1)
  have "iso_to_seconds ''P0D'' = Inl AttributeError" by blast
  moreover from iso_to_seconds_partial [of "''PT5M''" 300] v
  have "prefix ''PT'' ''PT5M'' \<and> (0::int) \<le> 300" by blast
  ultimately show ?thesis using p v by blast
qed

text \<open>
  C1 does not hold as stated: a text that begins with \<^verbatim>\<open>PT\<close> is never rejected for its
  shape, and an unparseable one such as \<^verbatim>\<open>PTabc\<close> or \<^verbatim>\<open>PT1.5S\<close> decodes to 0.
\<close>

theorem iso_to_seconds_zero_on_garbage:
  "\<not> well_formed_duration ''PTabc'' \<and> iso_to_seconds ''PTabc'' = Inr 0 \<and>
   \<not> well_formed_duration ''PT1.5S'' \<and> iso_to_seconds ''PT1.5S'' = Inr 0"
  by (simp add: well_formed_duration_def skip_component_def iso_to_seconds_def match_duration_def
        opt_component_def is_digit_def group_or_0_def)

text \<open>
  C1, amended. For every duration text that is not well-formed: when the text does not
  begin with \<^verbatim>\<open>PT\<close> the decoder fails hard (raises); when it begins with \<^verbatim>\<open>PT\<close> the
  text has a longest well-formed prefix, a proper one, and the decoder returns what it
  returns on that prefix and ignores the rest: \<open>3600 * hours + 60 * minutes + seconds\<close> of
  the components of that prefix when each of them stays within the digit limit of the
  integer conversion, the \<^verbatim>\<open>ValueError\<close> of that conversion otherwise. So \<^verbatim>\<open>PT5M30\<close>
  decodes to 300.
\<close>

theorem iso_to_seconds_ill_formed:
  assumes "\<not> well_formed_duration d"
  shows "(\<not> prefix ''PT'' d \<longrightarrow> iso_to_seconds d = Inl AttributeError) \<and>
         (prefix ''PT'' d \<longrightarrow>
            (\<exists>h m s. digits_or_absent h \<and> digits_or_absent m \<and> digits_or_absent s \<and>
               longest_well_formed_prefix (duration_text h m s) d \<and> duration_text h m s \<noteq> d)) \<and>
         (digits_or_absent h \<and> digits_or_absent m \<and> digits_or_absent s \<and>
          longest_well_formed_prefix (duration_text h m s) d \<longrightarrow>
            iso_to_seconds d = iso_to_seconds (duration_text h m s) \<and>
            (within_limit h \<and> within_limit m \<and> within_limit s \<longrightarrow>
               iso_to_seconds d =
                 Inr ((case h of None \<Rightarrow> 0 | Some ds \<Rightarrow> int_of_digits ds) * 3600
                    + (case m of None \<Rightarrow> 0 | Some ds \<Rightarrow> int_of_digits ds) * 60
                    + (case s of None \<Rightarrow> 0 | Some ds \<Rightarrow> int_of_digits ds))) \<and>
            (\<not> (within_limit h \<and> within_limit m \<and> within_limit s) \<longrightarrow>
               (\<exists>msg. iso_to_seconds d = Inl (ValueError msg))))"
proof -
  have c1: "iso_to_seconds d = Inl AttributeError" if "\<not> prefix ''PT'' d"
    using that by (simp add: iso_to_seconds_def match_duration_None)
  have c2: "\<exists>h m s. digits_or_absent h \<and> digits_or_absent m \<and> digits_or_absent s \<and>
               longest_well_formed_prefix (duration_text h m s) d \<and> duration_text h m s \<noteq> d"
    if "prefix ''PT'' d"
  proof -
  from that obtain h0 m0 s0 r0 where md: "match_duration d = Some ((h0, m0, s0), r0)"
    using match_duration_prefix by blast
  from match_duration_decomp [OF md]
  have dg: "digits_or_absent h0" "digits_or_absent m0" "digits_or_absent s0"
    and d: "d = duration_text h0 m0 s0 @ r0" by simp_all
  from assms md have "r0 \<noteq> []" by (auto simp: well_formed_duration_match)
  with d have "duration_text h0 m0 s0 \<noteq> d" by simp
  with dg match_duration_longest [OF md]
  show ?thesis by blast
  qed
  have c3: "iso_to_seconds d = iso_to_seconds (duration_text h m s) \<and>
            (within_limit h \<and> within_limit m \<and> within_limit s \<longrightarrow>
               iso_to_seconds d =
                 Inr ((case h of None \<Rightarrow> 0 | Some ds \<Rightarrow> int_of_digits ds) * 3600
                    + (case m of None \<Rightarrow> 0 | Some ds \<Rightarrow> int_of_digits ds) * 60
                    + (case s of None \<Rightarrow> 0 | Some ds \<Rightarrow> int_of_digits ds))) \<and>
            (\<not> (within_limit h \<and> within_limit m \<and> within_limit s) \<longrightarrow>
               (\<exists>msg. iso_to_seconds d = Inl (ValueError msg)))"
    if a: "digits_or_absent h \<and> digits_or_absent m \<and> digits_or_absent s \<and>
          longest_well_formed_prefix (duration_text h m s) d"
  proof -
  from a have dg: "digits_or_absent h" "digits_or_absent m" "digits_or_absent s"
    and lp: "longest_well_formed_prefix (duration_text h m s) d" by simp_all
  have "prefix ''PT'' (duration_text h m s)" by (simp add: duration_text_def)
  moreover from lp have "prefix (duration_text h m s) d"
    by (simp add: longest_well_formed_prefix_iff)
  ultimately have "prefix ''PT'' d" by (rule prefix_order.trans)
  then obtain h0 m0 s0 r0 where md: "match_duration d = Some ((h0, m0, s0), r0)"
    using match_duration_prefix by blast
  from match_duration_decomp [OF md]
  have dg0: "digits_or_absent h0" "digits_or_absent m0" "digits_or_absent s0" by simp_all
  from longest_well_formed_prefix_unique [OF lp match_duration_longest [OF md]]
  have "duration_text h m s = duration_text h0 m0 s0" .
  from duration_text_inject [OF dg dg0 this] md
  have md': "match_duration d = Some ((h, m, s), r0)" by simp
  have same: "iso_to_seconds d = iso_to_seconds (duration_text h m s)"
    using md' match_duration_text [OF dg] by (simp add: iso_to_seconds_def)
  have val: "iso_to_seconds d =
                 Inr ((case h of None \<Rightarrow> 0 | Some ds \<Rightarrow> int_of_digits ds) * 3600
                    + (case m of None \<Rightarrow> 0 | Some ds \<Rightarrow> int_of_digits ds) * 60
                    + (case s of None \<Rightarrow> 0 | Some ds \<Rightarrow> int_of_digits ds))"
    if "within_limit h \<and> within_limit m \<and> within_limit s"
    using that iso_to_seconds_of_match [OF md'] by simp
  have over: "\<exists>msg. iso_to_seconds d = Inl (ValueError msg)"
    if n: "\<not> (within_limit h \<and> within_limit m \<and> within_limit s)"
  proof -
    from iso_to_seconds_match_cases [OF md'] show ?thesis
    proof
      assume "\<exists>n. 0 \<le> n \<and> iso_to_seconds d = Inr n"
      then obtain k where k: "iso_to_seconds d = Inr k" by blast
      have g: "within_limit g" if "digits_or_absent g" "group_or_0 g = Inr v" for g v
        using that group_or_0_over_limit [of g] by auto
      from k md' obtain hv mv sv where "group_or_0 h = Inr hv" "group_or_0 m = Inr mv"
        "group_or_0 s = Inr sv"
        by (auto simp: iso_to_seconds_def split: sum.splits)
      with dg g n show ?thesis by blast
    qed
  qed
  from same val over show ?thesis by blast
  qed
  from c1 c2 c3 show ?thesis by blast
qed


theorem iso_to_seconds_ill_formed_witness:
  "\<not> well_formed_duration ''P0D'' \<and> \<not> prefix ''PT'' ''P0D'' \<and>
   iso_to_seconds ''P0D'' = Inl AttributeError \<and>
   \<not> well_formed_duration ''PT5M30'' \<and> prefix ''PT'' ''PT5M30'' \<and>
   digits_or_absent None \<and> digits_or_absent (Some ''5'') \<and>
   within_limit None \<and> within_limit (Some ''5'') \<and>
   duration_text None (Some ''5'') None = ''PT5M'' \<and>
   longest_well_formed_prefix ''PT5M'' ''PT5M30'' \<and>
   iso_to_seconds ''PT5M30'' = Inr 300"
proof -
  have a: "\<not> well_formed_duration ''P0D''" "\<not> prefix ''PT'' ''P0D''"
    by (simp_all add: well_formed_duration_def)
  have b: "\<not> well_formed_duration ''PT5M30''" "prefix ''PT'' ''PT5M30''"
    by (simp_all add: well_formed_duration_def skip_component_def is_digit_def)
  have dg: "digits_or_absent None" "digits_or_absent (Some ''5'')"
    by (simp_all add: digits_or_absent_def is_digit_def)
  have lim: "within_limit None" "within_limit (Some ''5'')"
    by (simp_all add: within_limit_def int_max_str_digits_def)
  have t: "duration_text None (Some ''5'') None = ''PT5M''"
    by (simp add: duration_text_def component_def)
  have lp: "longest_well_formed_prefix ''PT5M'' ''PT5M30''"
    by (simp add: longest_well_formed_prefix_def well_formed_duration_def skip_component_def
          is_digit_def)
  have v: "int_of_digits ''5'' = 5"
    by (simp add: int_of_digits_def digit_value_def)
  from iso_to_seconds_ill_formed [OF a(1)] a(2)
  have x: "iso_to_seconds ''P0D'' = Inl AttributeError" by blast
  from lp have lp': "longest_well_formed_prefix (duration_text None (Some ''5'') None) ''PT5M30''"
    by (simp only: t)
  from iso_to_seconds_ill_formed [OF b(1), of None "Some ''5''" None] dg lim lp'
  have "iso_to_seconds ''PT5M30'' =
          Inr ((case None of None \<Rightarrow> 0 | Some ds \<Rightarrow> int_of_digits ds) * 3600
             + (case Some ''5'' of None \<Rightarrow> 0 | Some ds \<Rightarrow> int_of_digits ds) * 60
             + (case None of None \<Rightarrow> 0 | Some ds \<Rightarrow> int_of_digits ds))"
    by blast
  then have "iso_to_seconds ''PT5M30'' = Inr 300"
    by (simp add: v)
  with a b dg lim t lp x show ?thesis by blast
qed

section \<open>The aggregator\<close>

lemma py_max_from_split:
  "list_all (\<lambda>w. k w < k best) pre \<Longrightarrow> list_all (\<lambda>w. k w \<le> k best) post \<Longrightarrow>
   \<exists>pre' post'. pre @ best # post @ xs = pre' @ py_max_from k best xs # post' \<and>
      list_all (\<lambda>w. k w < k (py_max_from k best xs)) pre' \<and>
      list_all (\<lambda>w. k w \<le> k (py_max_from k best xs)) post'"
proof (induction xs arbitrary: best pre post)
  case Nil
  then show ?case by auto
next
  case (Cons x xs)
  show ?case
  proof (cases "k x > k best")
    case True
    have 1: "list_all (\<lambda>w. k w < k x) (pre @ best # post)"
      using Cons.prems True by (auto simp: list_all_iff)
    have 2: "list_all (\<lambda>w. k w \<le> k x) []" by simp
    from Cons.IH [OF 1 2] True show ?thesis by simp
  next
    case False
    have 2: "list_all (\<lambda>w. k w \<le> k best) (post @ [x])"
      using Cons.prems False by (auto simp: list_all_iff)
    from Cons.IH [OF Cons.prems(1) 2] False show ?thesis by simp
  qed
qed

lemma split_first_argmax:
  assumes "xs = pre @ v # post" "list_all (\<lambda>w. k w < k v) pre" "list_all (\<lambda>w. k w \<le> k v) post"
  shows "first_argmax k xs v"
  unfolding first_argmax_def
proof (intro exI [of _ "length pre"] conjI allI impI)
  show "length pre < length xs" using assms(1) by simp
  show "xs ! length pre = v" using assms(1) by simp
  fix j
  { assume "j < length xs"
    then have "xs ! j \<in> set xs" by simp
    with assms have "xs ! j \<in> set pre \<or> xs ! j = v \<or> xs ! j \<in> set post" by auto
    with assms(2,3) show "k (xs ! j) \<le> k v" by (auto simp: list_all_iff) }
  { assume "j < length pre"
    with assms(1) have "xs ! j = pre ! j" by (simp add: nth_append)
    with \<open>j < length pre\<close> assms(2) show "k (xs ! j) < k v" by (simp add: list_all_length) }
qed

lemma top_by_None: "top_by k pool = None \<longleftrightarrow> pool = []"
  by (simp add: top_by_def split: list.splits)

lemma top_by_first_argmax: "top_by k pool = Some v \<Longrightarrow> first_argmax k pool v"
proof (cases pool)
  case Nil
  assume "top_by k pool = Some v"
  with Nil show ?thesis by (simp add: top_by_def)
next
  case (Cons x xs)
  assume "top_by k pool = Some v"
  with Cons have v: "v = py_max_from k x xs" by (simp add: top_by_def)
  from py_max_from_split [of k x "[]" "[]" xs]
  obtain pre' post' where "x # xs = pre' @ py_max_from k x xs # post'"
    "list_all (\<lambda>w. k w < k (py_max_from k x xs)) pre'"
    "list_all (\<lambda>w. k w \<le> k (py_max_from k x xs)) post'" by auto
  with Cons v show ?thesis by (auto intro: split_first_argmax)
qed

lemma first_argmax_mem: "first_argmax k xs v \<Longrightarrow> v \<in> set xs"
  by (auto simp: first_argmax_def)

lemma in_range_iff: "in_range ts start endt \<longleftrightarrow> (\<exists>t. ts = Some t \<and> start \<le> t \<and> t < endt)"
  by (cases ts) (simp_all add: in_range_def)

lemma items_compute_kpis: "items (compute_kpis videos start endt thr) = kpi_items videos start endt"
  by (simp add: compute_kpis_def Let_def)


lemma sample_video_sel:
  "publishedAt (sample_video i p d l c) = p" "duration_seconds (sample_video i p d l c) = d"
  "likes (sample_video i p d l c) = l" "comments (sample_video i p d l c) = c"
  "video_id (sample_video i p d l c) = i"
  by (simp_all add: sample_video_def)

lemma sample_video_eq:
  "sample_video i p d l c = sample_video i' p' d' l' c' \<longleftrightarrow>
     i = i' \<and> p = p' \<and> d = d' \<and> l = l' \<and> c = c'"
  by (auto simp: sample_video_def)

text \<open>
  C3. \<^verbatim>\<open>compute_kpis\<close> selects exactly the videos whose \<^verbatim>\<open>publishedAt\<close> is defined and
  lies in the half-open interval from \<open>start\<close> (included) to \<open>endt\<close> (excluded), in the
  order of the input: a video published exactly at \<open>endt\<close> is excluded, and a video with
  no \<^verbatim>\<open>publishedAt\<close> is never selected.
\<close>

theorem compute_kpis_half_open:
  "items (compute_kpis videos start endt thr) =
     filter (\<lambda>v. \<exists>t. publishedAt v = Some t \<and> start \<le> t \<and> t < endt) videos \<and>
   (v \<in> set (items (compute_kpis videos start endt thr)) \<longleftrightarrow>
      v \<in> set videos \<and> (\<exists>t. publishedAt v = Some t \<and> start \<le> t \<and> t < endt)) \<and>
   (publishedAt v = Some endt \<longrightarrow> v \<notin> set (items (compute_kpis videos start endt thr))) \<and>
   (publishedAt v = None \<longrightarrow> v \<notin> set (items (compute_kpis videos start endt thr)))"
proof -
  have its: "items (compute_kpis videos start endt thr) =
     filter (\<lambda>v. \<exists>t. publishedAt v = Some t \<and> start \<le> t \<and> t < endt) videos"
    by (simp add: items_compute_kpis kpi_items_def in_range_iff)
  then show ?thesis by auto
qed

theorem compute_kpis_half_open_witness:
  "items (compute_kpis
      [sample_video ''a'' (Some 1706745600000000) 90 1 1,
       sample_video ''b'' (Some 1706745599000000) 90 1 1,
       sample_video ''c'' None 90 1 1]
      1704067200000000 1706745600000000 60) =
     [sample_video ''b'' (Some 1706745599000000) 90 1 1] \<and>
   publishedAt (sample_video ''a'' (Some 1706745600000000) 90 1 1) = Some 1706745600000000 \<and>
   sample_video ''a'' (Some 1706745600000000) 90 1 1 \<notin> set (items (compute_kpis
      [sample_video ''a'' (Some 1706745600000000) 90 1 1,
       sample_video ''b'' (Some 1706745599000000) 90 1 1,
       sample_video ''c'' None 90 1 1]
      1704067200000000 1706745600000000 60)) \<and>
   publishedAt (sample_video ''c'' None 90 1 1) = None \<and>
   sample_video ''c'' None 90 1 1 \<notin> set (items (compute_kpis
      [sample_video ''a'' (Some 1706745600000000) 90 1 1,
       sample_video ''b'' (Some 1706745599000000) 90 1 1,
       sample_video ''c'' None 90 1 1]
      1704067200000000 1706745600000000 60))"
proof -
  let ?a = "sample_video ''a'' (Some 1706745600000000) 90 1 1"
  let ?b = "sample_video ''b'' (Some 1706745599000000) 90 1 1"
  let ?c = "sample_video ''c'' None 90 1 1"
  let ?k = "compute_kpis [?a, ?b, ?c] 1704067200000000 1706745600000000 60"
  have pa: "publishedAt ?a = Some 1706745600000000" and pc: "publishedAt ?c = None"
    by (simp_all add: sample_video_sel)
  from compute_kpis_half_open [of "[?a, ?b, ?c]" 1704067200000000 1706745600000000 60 ?a]
  have i: "items ?k = [?b]"
    by (simp add: sample_video_sel)
  from compute_kpis_half_open [of "[?a, ?b, ?c]" 1704067200000000 1706745600000000 60 ?a] pa
  have na: "?a \<notin> set (items ?k)" by blast
  from compute_kpis_half_open [of "[?a, ?b, ?c]" 1704067200000000 1706745600000000 60 ?c] pc
  have nc: "?c \<notin> set (items ?k)" by blast
  from i na nc pa pc show ?thesis by blast
qed

text \<open>
  C5. For every list of videos, window and threshold, the long-form and short-form parts
  bisect the in-range records, which are the videos of the input published in the
  window: together the two parts hold every in-range record as often as it occurs, no
  record is in both, a record is short-form exactly when its duration is at most the
  threshold, and \<open>count_videos + count_shorts = count_total\<close>; a video outside the
  window is in neither part and in no count.
\<close>

theorem compute_kpis_bisection:
  "items (compute_kpis videos start endt thr) =
     filter (\<lambda>v. in_range (publishedAt v) start endt) videos \<and>
   count_shorts (compute_kpis videos start endt thr) =
     length (filter (\<lambda>v. in_range (publishedAt v) start endt \<and> duration_seconds v \<le> thr) videos) \<and>
   count_videos (compute_kpis videos start endt thr) =
     length (filter (\<lambda>v. in_range (publishedAt v) start endt \<and> duration_seconds v > thr) videos) \<and>
   count_videos (compute_kpis videos start endt thr) + count_shorts (compute_kpis videos start endt thr)
     = count_total (compute_kpis videos start endt thr) \<and>
   count_total (compute_kpis videos start endt thr) = length (items (compute_kpis videos start endt thr)) \<and>
   count_videos (compute_kpis videos start endt thr) =
     length (videos_only (items (compute_kpis videos start endt thr)) thr) \<and>
   count_shorts (compute_kpis videos start endt thr) =
     length (shorts_only (items (compute_kpis videos start endt thr)) thr) \<and>
   mset (videos_only (items (compute_kpis videos start endt thr)) thr) +
     mset (shorts_only (items (compute_kpis videos start endt thr)) thr)
     = mset (items (compute_kpis videos start endt thr)) \<and>
   set (videos_only (items (compute_kpis videos start endt thr)) thr) \<inter>
     set (shorts_only (items (compute_kpis videos start endt thr)) thr) = {} \<and>
   (v \<in> set (shorts_only (items (compute_kpis videos start endt thr)) thr) \<longleftrightarrow>
      v \<in> set videos \<and> in_range (publishedAt v) start endt \<and> duration_seconds v \<le> thr) \<and>
   (v \<in> set (videos_only (items (compute_kpis videos start endt thr)) thr) \<longleftrightarrow>
      v \<in> set videos \<and> in_range (publishedAt v) start endt \<and> \<not> duration_seconds v \<le> thr)"
proof -
  let ?its = "items (compute_kpis videos start endt thr)"
  have i: "?its = filter (\<lambda>v. in_range (publishedAt v) start endt) videos"
    by (simp add: items_compute_kpis kpi_items_def)
  have neg: "(\<lambda>v. duration_seconds v > thr) = (\<lambda>v. \<not> duration_seconds v \<le> thr)"
    by auto
  have m: "mset (videos_only ?its thr) + mset (shorts_only ?its thr) = mset ?its"
    by (simp add: videos_only_def shorts_only_def neg)
  then have "size (mset (videos_only ?its thr) + mset (shorts_only ?its thr)) = size (mset ?its)"
    by simp
  then have l: "length (videos_only ?its thr) + length (shorts_only ?its thr) = length ?its"
    by simp
  have c: "count_total (compute_kpis videos start endt thr) = length ?its"
    "count_videos (compute_kpis videos start endt thr) = length (videos_only ?its thr)"
    "count_shorts (compute_kpis videos start endt thr) = length (shorts_only ?its thr)"
    by (simp_all add: compute_kpis_def Let_def)
  have f: "shorts_only ?its thr =
      filter (\<lambda>v. in_range (publishedAt v) start endt \<and> duration_seconds v \<le> thr) videos"
    "videos_only ?its thr =
      filter (\<lambda>v. in_range (publishedAt v) start endt \<and> duration_seconds v > thr) videos"
    unfolding i by (simp_all add: shorts_only_def videos_only_def)
  have d: "set (videos_only ?its thr) \<inter> set (shorts_only ?its thr) = {}"
    by (auto simp: videos_only_def shorts_only_def)
  have s: "v \<in> set (shorts_only ?its thr) \<longleftrightarrow>
        v \<in> set videos \<and> in_range (publishedAt v) start endt \<and> duration_seconds v \<le> thr"
    "v \<in> set (videos_only ?its thr) \<longleftrightarrow>
        v \<in> set videos \<and> in_range (publishedAt v) start endt \<and> \<not> duration_seconds v \<le> thr"
    unfolding f by auto
  from c f have cf: "count_shorts (compute_kpis videos start endt thr) =
     length (filter (\<lambda>v. in_range (publishedAt v) start endt \<and> duration_seconds v \<le> thr) videos)"
    "count_videos (compute_kpis videos start endt thr) =
     length (filter (\<lambda>v. in_range (publishedAt v) start endt \<and> duration_seconds v > thr) videos)"
    by simp_all
  from c l have sum: "count_videos (compute_kpis videos start endt thr)
      + count_shorts (compute_kpis videos start endt thr) = count_total (compute_kpis videos start endt thr)"
    by simp
  from i cf sum c m d s show ?thesis by blast
qed

theorem compute_kpis_bisection_witness:
  "items (compute_kpis
     [sample_video ''a'' (Some 5) 60 0 0, sample_video ''b'' (Some 6) 61 0 0,
      sample_video ''z'' (Some 99) 10 0 0, sample_video ''n'' None 300 0 0] 0 10 60)
     = [sample_video ''a'' (Some 5) 60 0 0, sample_video ''b'' (Some 6) 61 0 0] \<and>
   sample_video ''a'' (Some 5) 60 0 0 \<in> set (shorts_only
     (items (compute_kpis
     [sample_video ''a'' (Some 5) 60 0 0, sample_video ''b'' (Some 6) 61 0 0,
      sample_video ''z'' (Some 99) 10 0 0, sample_video ''n'' None 300 0 0] 0 10 60)) 60) \<and>
   sample_video ''b'' (Some 6) 61 0 0 \<in> set (videos_only
     (items (compute_kpis
     [sample_video ''a'' (Some 5) 60 0 0, sample_video ''b'' (Some 6) 61 0 0,
      sample_video ''z'' (Some 99) 10 0 0, sample_video ''n'' None 300 0 0] 0 10 60)) 60) \<and>
   sample_video ''b'' (Some 6) 61 0 0 \<notin> set (shorts_only
     (items (compute_kpis
     [sample_video ''a'' (Some 5) 60 0 0, sample_video ''b'' (Some 6) 61 0 0,
      sample_video ''z'' (Some 99) 10 0 0, sample_video ''n'' None 300 0 0] 0 10 60)) 60) \<and>
   sample_video ''z'' (Some 99) 10 0 0 \<notin> set (shorts_only
     (items (compute_kpis
     [sample_video ''a'' (Some 5) 60 0 0, sample_video ''b'' (Some 6) 61 0 0,
      sample_video ''z'' (Some 99) 10 0 0, sample_video ''n'' None 300 0 0] 0 10 60)) 60) \<and>
   sample_video ''n'' None 300 0 0 \<notin> set (videos_only
     (items (compute_kpis
     [sample_video ''a'' (Some 5) 60 0 0, sample_video ''b'' (Some 6) 61 0 0,
      sample_video ''z'' (Some 99) 10 0 0, sample_video ''n'' None 300 0 0] 0 10 60)) 60) \<and>
   count_shorts (compute_kpis
     [sample_video ''a'' (Some 5) 60 0 0, sample_video ''b'' (Some 6) 61 0 0,
      sample_video ''z'' (Some 99) 10 0 0, sample_video ''n'' None 300 0 0] 0 10 60) = 1 \<and>
   count_videos (compute_kpis
     [sample_video ''a'' (Some 5) 60 0 0, sample_video ''b'' (Some 6) 61 0 0,
      sample_video ''z'' (Some 99) 10 0 0, sample_video ''n'' None 300 0 0] 0 10 60) = 1 \<and>
   count_total (compute_kpis
     [sample_video ''a'' (Some 5) 60 0 0, sample_video ''b'' (Some 6) 61 0 0,
      sample_video ''z'' (Some 99) 10 0 0, sample_video ''n'' None 300 0 0] 0 10 60) = 2"
proof -
  let ?a = "sample_video ''a'' (Some 5) 60 0 0"
  let ?b = "sample_video ''b'' (Some 6) 61 0 0"
  let ?z = "sample_video ''z'' (Some 99) 10 0 0"
  let ?n = "sample_video ''n'' None 300 0 0"
  let ?k = "compute_kpis [?a, ?b, ?z, ?n] 0 10 60"
  note a = compute_kpis_bisection [of "[?a, ?b, ?z, ?n]" 0 10 60 ?a]
  have i: "items ?k = [?a, ?b]"
    using a [THEN conjunct1] by (simp add: in_range_def sample_video_sel)
  have s: "count_shorts ?k = 1"
    using a [THEN conjunct2, THEN conjunct1] by (simp add: in_range_def sample_video_sel)
  have v: "count_videos ?k = 1"
    using a [THEN conjunct2, THEN conjunct2, THEN conjunct1]
    by (simp add: in_range_def sample_video_sel)
  have "count_videos ?k + count_shorts ?k = count_total ?k"
    using a [THEN conjunct2, THEN conjunct2, THEN conjunct2, THEN conjunct1] .
  with s v have t: "count_total ?k = 2" by simp
  have sh: "x \<in> set (shorts_only (items ?k) 60) \<longleftrightarrow>
      x \<in> set [?a, ?b, ?z, ?n] \<and> in_range (publishedAt x) 0 10 \<and> duration_seconds x \<le> 60" for x
    using compute_kpis_bisection [of "[?a, ?b, ?z, ?n]" 0 10 60 x] by blast
  have vi: "x \<in> set (videos_only (items ?k) 60) \<longleftrightarrow>
      x \<in> set [?a, ?b, ?z, ?n] \<and> in_range (publishedAt x) 0 10 \<and> \<not> duration_seconds x \<le> 60" for x
    using compute_kpis_bisection [of "[?a, ?b, ?z, ?n]" 0 10 60 x] by blast
  have sa: "?a \<in> set (shorts_only (items ?k) 60)"
    by (simp add: sh in_range_def sample_video_sel)
  have vb: "?b \<in> set (videos_only (items ?k) 60)"
    by (simp add: vi in_range_def sample_video_sel)
  have nb: "?b \<notin> set (shorts_only (items ?k) 60)"
    by (simp add: sh in_range_def sample_video_sel)
  have nz: "?z \<notin> set (shorts_only (items ?k) 60)"
    by (simp add: sh in_range_def sample_video_sel)
  have nn: "?n \<notin> set (videos_only (items ?k) 60)"
    by (simp add: vi in_range_def sample_video_sel)
  from i sa vb nb nz nn s v t show ?thesis by blast
qed

text \<open>
  C6. \<^verbatim>\<open>most_liked\<close> is the arg-max by likes over the in-range records and
  \<^verbatim>\<open>most_commented\<close> the arg-max by comments over the same records; each is absent
  exactly when there is no in-range record, and among records tied at the maximum the
  first in input order is returned.
\<close>

theorem compute_kpis_top:
  "items (compute_kpis videos start endt thr) =
     filter (\<lambda>v. in_range (publishedAt v) start endt) videos \<and>
   (most_liked (compute_kpis videos start endt thr) = None \<longleftrightarrow>
      items (compute_kpis videos start endt thr) = []) \<and>
   (most_commented (compute_kpis videos start endt thr) = None \<longleftrightarrow>
      items (compute_kpis videos start endt thr) = []) \<and>
   (most_liked (compute_kpis videos start endt thr) = Some v \<longrightarrow>
      first_argmax likes (items (compute_kpis videos start endt thr)) v) \<and>
   (most_commented (compute_kpis videos start endt thr) = Some w \<longrightarrow>
      first_argmax comments (items (compute_kpis videos start endt thr)) w)"
  by (simp add: compute_kpis_def Let_def kpi_items_def top_by_None top_by_first_argmax)

theorem compute_kpis_top_witness:
  "most_liked (compute_kpis
      [sample_video ''a'' (Some 1) 90 5 0, sample_video ''b'' (Some 2) 90 10 0,
       sample_video ''c'' (Some 3) 90 10 0, sample_video ''d'' (Some 4) 90 3 0] 0 10 60)
     = Some (sample_video ''b'' (Some 2) 90 10 0) \<and>
   first_argmax likes (items (compute_kpis
      [sample_video ''a'' (Some 1) 90 5 0, sample_video ''b'' (Some 2) 90 10 0,
       sample_video ''c'' (Some 3) 90 10 0, sample_video ''d'' (Some 4) 90 3 0] 0 10 60))
     (sample_video ''b'' (Some 2) 90 10 0) \<and>
   most_commented (compute_kpis
      [sample_video ''a'' (Some 1) 90 5 0, sample_video ''b'' (Some 2) 90 10 0,
       sample_video ''c'' (Some 3) 90 10 0, sample_video ''d'' (Some 4) 90 3 0] 0 10 60)
     = Some (sample_video ''a'' (Some 1) 90 5 0) \<and>
   first_argmax comments (items (compute_kpis
      [sample_video ''a'' (Some 1) 90 5 0, sample_video ''b'' (Some 2) 90 10 0,
       sample_video ''c'' (Some 3) 90 10 0, sample_video ''d'' (Some 4) 90 3 0] 0 10 60))
     (sample_video ''a'' (Some 1) 90 5 0) \<and>
   most_liked (compute_kpis
      [sample_video ''a'' (Some 1) 90 5 0, sample_video ''b'' (Some 2) 90 10 0,
       sample_video ''c'' (Some 3) 90 10 0, sample_video ''d'' (Some 4) 90 3 0] 20 30 60) = None"
proof -
  let ?a = "sample_video ''a'' (Some 1) 90 5 0"
  let ?b = "sample_video ''b'' (Some 2) 90 10 0"
  let ?c = "sample_video ''c'' (Some 3) 90 10 0"
  let ?d = "sample_video ''d'' (Some 4) 90 3 0"
  let ?k = "compute_kpis [?a, ?b, ?c, ?d] 0 10 60"
  have ml: "most_liked ?k = Some ?b"
    by (simp add: compute_kpis_def Let_def kpi_items_def in_range_def top_by_def sample_video_sel)
  have mc: "most_commented ?k = Some ?a"
    by (simp add: compute_kpis_def Let_def kpi_items_def in_range_def top_by_def sample_video_sel)
  from compute_kpis_top [of "[?a, ?b, ?c, ?d]" 0 10 60 ?b ?a] ml mc
  have f: "first_argmax likes (items ?k) ?b" "first_argmax comments (items ?k) ?a"
    by blast+
  from compute_kpis_top [of "[?a, ?b, ?c, ?d]" 20 30 60]
  have e: "most_liked (compute_kpis [?a, ?b, ?c, ?d] 20 30 60) = None"
    by (simp add: in_range_def sample_video_sel)
  from ml mc f e show ?thesis by blast
qed

text \<open>
  C10. When there is an in-range record, \<^verbatim>\<open>most_liked\<close> and \<^verbatim>\<open>most_commented\<close> are
  both present, and whenever one is present it is one of the in-range records, hence a
  record of the input whose publish instant lies in the window.
\<close>

theorem compute_kpis_top_in_window:
  "(items (compute_kpis videos start endt thr) \<noteq> [] \<longrightarrow>
      (\<exists>v w. most_liked (compute_kpis videos start endt thr) = Some v \<and>
             most_commented (compute_kpis videos start endt thr) = Some w)) \<and>
   (most_liked (compute_kpis videos start endt thr) = Some v \<longrightarrow>
      v \<in> set (items (compute_kpis videos start endt thr)) \<and> v \<in> set videos \<and>
      in_range (publishedAt v) start endt) \<and>
   (most_commented (compute_kpis videos start endt thr) = Some w \<longrightarrow>
      w \<in> set (items (compute_kpis videos start endt thr)) \<and> w \<in> set videos \<and>
      in_range (publishedAt w) start endt)"
proof -
  let ?k = "compute_kpis videos start endt thr"
  have i: "items ?k = kpi_items videos start endt" by (rule items_compute_kpis)
  have l: "most_liked ?k = top_by likes (items ?k)"
    and c: "most_commented ?k = top_by comments (items ?k)"
    by (simp_all add: compute_kpis_def Let_def)
  have mem: "x \<in> set videos \<and> in_range (publishedAt x) start endt" if "x \<in> set (items ?k)" for x
    using that by (simp add: i kpi_items_def)
  have ne: "\<exists>v w. most_liked ?k = Some v \<and> most_commented ?k = Some w" if "items ?k \<noteq> []"
    using that top_by_None [of likes "items ?k"] top_by_None [of comments "items ?k"] l c
    by auto
  have ml: "v \<in> set (items ?k)" if "most_liked ?k = Some v"
    using that l top_by_first_argmax [of likes "items ?k" v] by (simp add: first_argmax_mem)
  have mc: "w \<in> set (items ?k)" if "most_commented ?k = Some w"
    using that c top_by_first_argmax [of comments "items ?k" w] by (simp add: first_argmax_mem)
  from ne ml mc mem show ?thesis by blast
qed

theorem compute_kpis_top_in_window_witness:
  "items (compute_kpis
      [sample_video ''x'' (Some 50) 90 100 100, sample_video ''y'' (Some 2) 90 3 8,
       sample_video ''z'' (Some 3) 90 7 4] 0 10 60) \<noteq> [] \<and>
   most_liked (compute_kpis
      [sample_video ''x'' (Some 50) 90 100 100, sample_video ''y'' (Some 2) 90 3 8,
       sample_video ''z'' (Some 3) 90 7 4] 0 10 60) = Some (sample_video ''z'' (Some 3) 90 7 4) \<and>
   most_commented (compute_kpis
      [sample_video ''x'' (Some 50) 90 100 100, sample_video ''y'' (Some 2) 90 3 8,
       sample_video ''z'' (Some 3) 90 7 4] 0 10 60) = Some (sample_video ''y'' (Some 2) 90 3 8) \<and>
   sample_video ''z'' (Some 3) 90 7 4 \<in> set (items (compute_kpis
      [sample_video ''x'' (Some 50) 90 100 100, sample_video ''y'' (Some 2) 90 3 8,
       sample_video ''z'' (Some 3) 90 7 4] 0 10 60)) \<and>
   sample_video ''y'' (Some 2) 90 3 8 \<in> set (items (compute_kpis
      [sample_video ''x'' (Some 50) 90 100 100, sample_video ''y'' (Some 2) 90 3 8,
       sample_video ''z'' (Some 3) 90 7 4] 0 10 60)) \<and>
   in_range (publishedAt (sample_video ''z'' (Some 3) 90 7 4)) 0 10 \<and>
   in_range (publishedAt (sample_video ''y'' (Some 2) 90 3 8)) 0 10"
proof -
  let ?x = "sample_video ''x'' (Some 50) 90 100 100"
  let ?y = "sample_video ''y'' (Some 2) 90 3 8"
  let ?z = "sample_video ''z'' (Some 3) 90 7 4"
  let ?k = "compute_kpis [?x, ?y, ?z] 0 10 60"
  have ne: "items ?k \<noteq> []"
    by (simp add: items_compute_kpis kpi_items_def in_range_def sample_video_sel)
  have ml: "most_liked ?k = Some ?z"
    by (simp add: compute_kpis_def Let_def kpi_items_def in_range_def top_by_def sample_video_sel)
  have mc: "most_commented ?k = Some ?y"
    by (simp add: compute_kpis_def Let_def kpi_items_def in_range_def top_by_def sample_video_sel)
  from compute_kpis_top_in_window [of "[?x, ?y, ?z]" 0 10 60 ?z ?y] ml mc
  have "?z \<in> set (items ?k)" "in_range (publishedAt ?z) 0 10"
    "?y \<in> set (items ?k)" "in_range (publishedAt ?y) 0 10"
    by blast+
  with ne ml mc show ?thesis by blast
qed

section \<open>The resolver\<close>

lemma py_strip_spaces:
  assumes "list_all is_space s"
  shows "py_strip s = []"
proof -
  from assms have "\<forall>c\<in>set (rev s). is_space c" by (simp add: list_all_iff)
  then have "dropWhile is_space (rev s) = []" by (simp only: dropWhile_eq_Nil_conv)
  then show ?thesis by (simp only: py_strip_def py_rstrip_def rev.simps dropWhile.simps)
qed

lemma py_strip_id:
  assumes "s \<noteq> []" "\<not> is_space (hd s)" "\<not> is_space (last s)"
  shows "py_strip s = s"
proof -
  from assms have "rev s \<noteq> []" "\<not> is_space (hd (rev s))"
    by (simp_all add: hd_rev)
  then have "dropWhile is_space (rev s) = rev s"
    by (cases "rev s") simp_all
  then have r: "py_rstrip is_space s = s"
    by (simp add: py_rstrip_def)
  from assms have "dropWhile is_space s = s"
    by (cases s) simp_all
  with r show ?thesis by (simp add: py_strip_def)
qed

lemma id_char_not_space: "is_id_char c \<Longrightarrow> \<not> is_space c"
  by (auto simp: is_id_char_def is_space_def is_digit_def is_upper_def is_lower_def)

lemma fullmatch_canonical:
  assumes "length b = 22" "list_all is_id_char b"
  shows "fullmatch_channel_id (''UC'' @ b)"
  using assms by (simp add: fullmatch_channel_id_def match_channel_id_def)

lemma fullmatch_channel_id_iff:
  "fullmatch_channel_id s \<longleftrightarrow> (\<exists>b. s = ''UC'' @ b \<and> length b = 22 \<and> list_all is_id_char b)"
proof
  assume "fullmatch_channel_id s"
  then have p: "prefix ''UC'' s" and l: "length (take 22 (drop 2 s)) = 22"
    and a: "list_all is_id_char (take 22 (drop 2 s))" and t: "take 24 s = s"
    by (simp_all add: fullmatch_channel_id_def match_channel_id_def split: if_splits)
  from p have s: "s = ''UC'' @ drop 2 s" by (auto simp: prefix_def)
  from t have "length s \<le> 24" by (metis length_take min.cobounded2)
  then have "take 22 (drop 2 s) = drop 2 s" by simp
  with l a s show "\<exists>b. s = ''UC'' @ b \<and> length b = 22 \<and> list_all is_id_char b"
    by metis
next
  assume "\<exists>b. s = ''UC'' @ b \<and> length b = 22 \<and> list_all is_id_char b"
  then obtain b where "s = ''UC'' @ b" "length b = 22" "list_all is_id_char b" by blast
  then show "fullmatch_channel_id s" using fullmatch_canonical [of b] by simp
qed

text \<open>
  C4. For every input of the canonical channel-ID shape, the two letters \<^verbatim>\<open>UC\<close> followed
  by 22 characters drawn from the alphanumerics, the underscore and the hyphen, the
  resolver returns the input unchanged and issues no request: the log of requests it
  returns is the one it was given.
\<close>

theorem resolve_canonical_id:
  assumes "length b = 22" "list_all is_id_char b"
  shows "resolve_to_channel_id yt api_key (''UC'' @ b) log = (Inr (''UC'' @ b), log)"
proof -
  have "b \<noteq> []" using assms(1) by auto
  then have "last b \<in> set b" by simp
  with assms(2) have "\<not> is_space (last b)"
    by (simp add: list_all_iff id_char_not_space)
  moreover have "\<not> is_space CHR ''U''" by (simp add: is_space_def)
  ultimately have "py_strip (''UC'' @ b) = ''UC'' @ b"
    using \<open>b \<noteq> []\<close> by (intro py_strip_id) simp_all
  with fullmatch_canonical [OF assms] show ?thesis
    by (simp add: resolve_to_channel_id_def)
qed

theorem resolve_canonical_id_witness:
  "length ''_x5XG1OV2P6uZZ5FSM9Ttw'' = 22 \<and> list_all is_id_char ''_x5XG1OV2P6uZZ5FSM9Ttw'' \<and>
   resolve_to_channel_id (sample_service []) ''KEY'' ''UC_x5XG1OV2P6uZZ5FSM9Ttw'' [] =
     (Inr ''UC_x5XG1OV2P6uZZ5FSM9Ttw'', [])"
proof -
  have h: "length ''_x5XG1OV2P6uZZ5FSM9Ttw'' = 22" "list_all is_id_char ''_x5XG1OV2P6uZZ5FSM9Ttw''"
    by (simp_all add: is_id_char_def is_digit_def is_upper_def is_lower_def)
  from resolve_canonical_id [OF h, of "sample_service []" "''KEY''" "[]"] h
  show ?thesis by simp
qed

text \<open>
  C8. On the empty string and on every string of whitespace only, the resolver fails with
  its error for an empty input (the \<^verbatim>\<open>ValueError\<close> with the message
  \<^verbatim>\<open>Empty channel input.\<close>) and issues no request.
\<close>

theorem resolve_empty_input:
  assumes "list_all is_space s"
  shows "resolve_to_channel_id yt api_key s log = (Inl (ValueError ''Empty channel input.''), log)"
  using py_strip_spaces [OF assms] by (simp add: resolve_to_channel_id_def)

theorem resolve_empty_input_witness:
  "list_all is_space [] \<and>
   resolve_to_channel_id (sample_service []) ''KEY'' [] [] =
     (Inl (ValueError ''Empty channel input.''), []) \<and>
   list_all is_space [CHR 0x20, CHR 0x09, CHR 0x0A, CHR 0x20] \<and>
   resolve_to_channel_id (sample_service []) ''KEY'' [CHR 0x20, CHR 0x09, CHR 0x0A, CHR 0x20] [] =
     (Inl (ValueError ''Empty channel input.''), [])"
proof -
  have e: "list_all is_space []" by simp
  have w: "list_all is_space [CHR 0x20, CHR 0x09, CHR 0x0A, CHR 0x20]"
    by (simp add: is_space_def)
  from resolve_empty_input [OF e, of "sample_service []" "''KEY''" "[]"]
    resolve_empty_input [OF w, of "sample_service []" "''KEY''" "[]"] e w
  show ?thesis by blast
qed

section \<open>The fetch pipeline\<close>



lemma loop_error:
  assumes "playlistItems yt k pl 50 token = Inl status"
  shows "list_upload_loop yt k pl m ids token log =
         Some (Inl (HTTPError status), log @ [PlaylistItems k pl 50 token])"
  using assms by (subst list_upload_loop.simps) (simp add: Let_def)
































end
